theory Spec2Isabelle
  imports Main "HOL-Library.Word" "HOL-Library.Multiset"
begin

section \<open>Overlay maintenance and heartbeat of Iris\<close>

text \<open>
  A shallow embedding of \<^verbatim>\<open>proto/overlay/maintenance.go\<close> (routing table
  maintenance), of the heartbeat part of the overlay's sender and of
  \<^verbatim>\<open>heart/heart.go\<close> (the liveness monitor), with the properties of the
  specification proved or refuted about them.

  Node ids are \<^verbatim>\<open>*big.Int\<close> values: unbounded integers compared by value.
  A Go panic (an index or slice bound out of range) is the result \<open>None\<close>.
\<close>

type_synonym nodeid = int

subsection \<open>What the code takes from outside the files at hand\<close>

text \<open>
  The functions below call four things that are declared elsewhere:
  \<^item> \<^verbatim>\<open>config.OverlayLeaves\<close>, a positive constant;
  \<^item> \<^verbatim>\<open>idSlice{origin, data}\<close>, the \<^verbatim>\<open>sort.Interface\<close> that orders ids
    circularly around \<open>origin\<close>. It is taken as a ranking: \<open>rank e origin x\<close> is the
    position of \<open>x\<close> on the ring seen from \<open>origin\<close>, and \<^verbatim>\<open>Less(i, j)\<close> is
    \<open>rank e origin (data ! i) < rank e origin (data ! j)\<close>;
  \<^item> \<^verbatim>\<open>prefix(a, b)\<close>, the length of the common digit prefix of two ids and the
    next digit of the second one;
  \<^item> \<^verbatim>\<open>big.Int.SetString(s, 10)\<close> of the Go library, the parser of the ids of a
    state message.
  They are parameters of the model, so every theorem holds for every choice of them
  that meets the theorem's hypotheses.
\<close>

record env =
  OverlayLeaves :: nat
  rank :: "nodeid \<Rightarrow> nodeid \<Rightarrow> int"
  prefix :: "nodeid \<Rightarrow> nodeid \<Rightarrow> nat \<times> nat"
  SetString :: "string \<Rightarrow> nodeid option"

subsection \<open>Data\<close>

text \<open>The routing table: the leaf set and the rows of routing cells (\<open>None\<close> is \<^verbatim>\<open>nil\<close>).\<close>

record table =
  leaves :: "nodeid list"
  routes :: "nodeid option list list"

text \<open>The state exchange message. \<open>Addrs\<close> is a Go map; its pairs are listed in the
  order a \<^verbatim>\<open>range\<close> over it yields them.\<close>

record state =
  Addrs :: "(string \<times> string list) list"
  Updated :: "64 word"
  Repair :: bool
  Passive :: bool

text \<open>
  The fields of \<^verbatim>\<open>Overlay\<close> that the modelled functions read: the local id, the live
  routing table \<^verbatim>\<open>o.routes\<close>, the node ids of the peers in \<^verbatim>\<open>o.pool\<close> (in the
  order a \<^verbatim>\<open>range\<close> over the map yields them; Go leaves that order open, and the
  theorems below hold for every order) and the epoch \<^verbatim>\<open>o.time\<close>.
\<close>

record overlay =
  nodeId :: nodeid
  live :: table
  pool :: "nodeid list"
  time :: "64 word"

subsection \<open>Sorting helpers\<close>

text \<open>
  Modelled from the spec: \<^verbatim>\<open>sortext.Unique\<close> is not among the sources; the
  specification says that merging leaves "deduplicates" the sorted list. The function
  receives a \<^verbatim>\<open>sort.Interface\<close>, so all it can do is compare through
  \<^verbatim>\<open>Less\<close>: of every run of neighbours that \<^verbatim>\<open>Less\<close> does not separate, the
  first one is kept.
\<close>

fun Unique :: "('a \<Rightarrow> int) \<Rightarrow> 'a list \<Rightarrow> 'a list" where
  "Unique k [] = []"
| "Unique k [x] = [x]"
| "Unique k (x # y # ys) = (if k x < k y then x # Unique k (y # ys) else Unique k (x # ys))"

text \<open>
  \<^verbatim>\<open>sort.Search(n, f)\<close> of the Go library: binary search for the least index in
  \<open>[0, n)\<close> at which \<open>f\<close> holds, \<open>n\<close> if there is none (for a monotone \<open>f\<close>).
\<close>

function search_loop :: "(nat \<Rightarrow> bool) \<Rightarrow> nat \<Rightarrow> nat \<Rightarrow> nat" where
  "search_loop f i j =
     (if i < j
      then (let h = (i + j) div 2
            in if \<not> f h then search_loop f (h + 1) j else search_loop f i h)
      else i)"
  by pat_completeness auto
termination
  by (relation "measure (\<lambda>(f, i, j). j - i)") auto

declare search_loop.simps [simp del]

definition Search :: "nat \<Rightarrow> (nat \<Rightarrow> bool) \<Rightarrow> nat" where
  "Search n f = search_loop f 0 n"

text \<open>\<^verbatim>\<open>sortext.SearchBigInts\<close>.\<close>

definition SearchBigInts :: "nodeid list \<Rightarrow> nodeid \<Rightarrow> nat" where
  "SearchBigInts a x = Search (length a) (\<lambda>i. a ! i \<ge> x)"

subsection \<open>\<^verbatim>\<open>mergeLeaves\<close>\<close>

text \<open>
  The loop that looks for the origin point: it reads \<^verbatim>\<open>res[origin]\<close> for
  \<open>origin = 0, 1, ...\<close> with no test of \<open>origin\<close> against the length, so it panics
  when it runs off the end.
\<close>

function origin_loop :: "nodeid \<Rightarrow> nodeid list \<Rightarrow> nat \<Rightarrow> nat option" where
  "origin_loop self res origin =
     (if origin < length res
      then (if self \<noteq> res ! origin then origin_loop self res (origin + 1) else Some origin)
      else None)"
  by pat_completeness auto
termination
  by (relation "measure (\<lambda>(self, res, origin). length res - origin)") auto

declare origin_loop.simps [simp del]

text \<open>
  \<^verbatim>\<open>sort.Sort\<close> is not stable; \<open>sort_key\<close> is. The two agree whenever the ranking
  tells any two different ids of the list apart, which is what the theorems assume.
  The slice expression \<^verbatim>\<open>res[min:max]\<close> panics unless \<open>min \<le> max\<close> and \<open>max\<close> is
  within the slice.
\<close>

definition mergeLeaves :: "env \<Rightarrow> overlay \<Rightarrow> nodeid list \<Rightarrow> nodeid list \<Rightarrow> nodeid list option" where
  "mergeLeaves e ov a b =
     (let res = a @ b;
          res = sort_key (rank e (nodeId ov)) res;
          res = Unique (rank e (nodeId ov)) res
      in case origin_loop (nodeId ov) res 0 of
           None \<Rightarrow> None
         | Some origin \<Rightarrow>
             (let mn = max 0 (int origin - int (OverlayLeaves e div 2));
                  mx = min (int (length res)) (int origin + int (OverlayLeaves e div 2))
              in if 0 \<le> mn \<and> mn \<le> mx \<and> mx \<le> int (length res)
                 then Some (drop (nat mn) (take (nat mx) res))
                 else None))"

subsection \<open>\<^verbatim>\<open>merge\<close>\<close>

text \<open>
  The first loop of \<^verbatim>\<open>merge\<close>: the ids of the message that parse and are not the
  local id, in the order of the iteration, and the address book \<open>a\<close> with their
  addresses saved.
\<close>

fun extract_ids ::
  "env \<Rightarrow> overlay \<Rightarrow> (string \<times> string list) list \<Rightarrow> (string \<rightharpoonup> string list)
    \<Rightarrow> nodeid list \<times> (string \<rightharpoonup> string list)" where
  "extract_ids e ov [] a = ([], a)"
| "extract_ids e ov ((sid, addrs) # rest) a =
     (case SetString e sid of
        Some nid \<Rightarrow>
          if nodeId ov \<noteq> nid
          then (let (ids, a') = extract_ids e ov rest (a(sid \<mapsto> addrs)) in (nid # ids, a'))
          else extract_ids e ov rest a
      | None \<Rightarrow> extract_ids e ov rest a)"

text \<open>
  The second loop: each id goes to the cell \<^verbatim>\<open>t.routes[row][col]\<close> of its prefix if
  that cell is \<^verbatim>\<open>nil\<close>; a cell that holds an id is left alone (the \<^verbatim>\<open>switch\<close> has an
  empty case for a different id and no case for the same id).
\<close>

fun merge_routes ::
  "env \<Rightarrow> overlay \<Rightarrow> nodeid option list list \<Rightarrow> nodeid list \<Rightarrow> nodeid option list list option" where
  "merge_routes e ov rs [] = Some rs"
| "merge_routes e ov rs (nid # ids) =
     (let (row, col) = prefix e (nodeId ov) nid
      in if row < length rs \<and> col < length (rs ! row)
         then (case rs ! row ! col of
                 None \<Rightarrow> merge_routes e ov (rs[row := (rs ! row)[col := Some nid]]) ids
               | Some old \<Rightarrow> merge_routes e ov rs ids)
         else None)"

definition merge ::
  "env \<Rightarrow> overlay \<Rightarrow> table \<Rightarrow> (string \<rightharpoonup> string list) \<Rightarrow> state
    \<Rightarrow> (table \<times> (string \<rightharpoonup> string list)) option" where
  "merge e ov t a s =
     (let (ids, a') = extract_ids e ov (Addrs s) a
      in case mergeLeaves e ov (leaves t) ids of
           None \<Rightarrow> None
         | Some ls \<Rightarrow>
             (case merge_routes e ov (routes t) ids of
                None \<Rightarrow> None
              | Some rs \<Rightarrow> Some (\<lparr>leaves = ls, routes = rs\<rparr>, a')))"

subsection \<open>\<^verbatim>\<open>revoke\<close>\<close>

text \<open>The test both loops of \<^verbatim>\<open>revoke\<close> make: is \<open>x\<close> found in the sorted \<open>downs\<close>?\<close>

definition is_down :: "nodeid list \<Rightarrow> nodeid \<Rightarrow> bool" where
  "is_down downs x =
     (let idx = SearchBigInts downs x in idx < length downs \<and> downs ! idx = x)"

text \<open>
  The leaf loop: a leaf that is down is overwritten by the last leaf, the list is cut by
  one and the same index is looked at again (\<^verbatim>\<open>i--\<close> before the loop's \<^verbatim>\<open>i++\<close>).
\<close>

function clean_leaves :: "nodeid list \<Rightarrow> nodeid list \<Rightarrow> nat \<Rightarrow> bool \<Rightarrow> nodeid list \<times> bool" where
  "clean_leaves downs ls i intact =
     (if i < length ls
      then (if is_down downs (ls ! i)
            then clean_leaves downs (butlast (ls[i := last ls])) i False
            else clean_leaves downs ls (i + 1) intact)
      else (ls, intact))"
  by pat_completeness auto
termination
  by (relation "measure (\<lambda>(downs, ls, i, intact). length ls - i)") auto

declare clean_leaves.simps [simp del]

text \<open>
  The routing loop: a cell whose id is down is set to \<^verbatim>\<open>nil\<close> and then to the first
  peer of the pool with the cell's prefix, if there is one.
\<close>

definition fix_cell :: "env \<Rightarrow> overlay \<Rightarrow> nat \<Rightarrow> nat \<Rightarrow> nodeid option" where
  "fix_cell e ov r i = find (\<lambda>p. prefix e (nodeId ov) p = (r, i)) (pool ov)"

definition clean_cell ::
  "env \<Rightarrow> overlay \<Rightarrow> nodeid list \<Rightarrow> nat \<Rightarrow> nat \<Rightarrow> nodeid option \<Rightarrow> nodeid option" where
  "clean_cell e ov downs r i c =
     (case c of
        None \<Rightarrow> None
      | Some nid \<Rightarrow> if is_down downs nid then fix_cell e ov r i else Some nid)"

definition clean_routes ::
  "env \<Rightarrow> overlay \<Rightarrow> nodeid list \<Rightarrow> nodeid option list list \<Rightarrow> nodeid option list list" where
  "clean_routes e ov downs rs =
     map (\<lambda>(r, row). map (\<lambda>(i, c). clean_cell e ov downs r i c) (enumerate 0 row))
       (enumerate 0 rs)"

definition revoke :: "env \<Rightarrow> overlay \<Rightarrow> table \<Rightarrow> nodeid list \<Rightarrow> table option" where
  "revoke e ov t downs0 =
     (let downs = sort downs0;
          (ls, intact) = clean_leaves downs (leaves t) 0 True;
          repaired = (if \<not> intact then mergeLeaves e ov ls (pool ov) else Some ls)
      in case repaired of
           None \<Rightarrow> None
         | Some ls' \<Rightarrow> Some \<lparr>leaves = ls', routes = clean_routes e ov downs (routes t)\<rparr>)"

subsection \<open>\<^verbatim>\<open>changed\<close>\<close>

text \<open>A cell of a table, read as Go reads \<^verbatim>\<open>routes[r][c]\<close>: out of range is a panic.\<close>

definition cell :: "nodeid option list list \<Rightarrow> nat \<Rightarrow> nat \<Rightarrow> nodeid option option" where
  "cell rs r c = (if r < length rs \<and> c < length (rs ! r) then Some (rs ! r ! c) else None)"

text \<open>The leaf check: the lengths differ, or some position does.\<close>

fun leaves_differ :: "nodeid list \<Rightarrow> nodeid list \<Rightarrow> bool" where
  "leaves_differ [] [] = False"
| "leaves_differ (x # xs) (y # ys) = (if x \<noteq> y then True else leaves_differ xs ys)"
| "leaves_differ xs ys = True"

text \<open>The \<^verbatim>\<open>switch\<close> on one cell, on the pair \<open>(ch, rep)\<close>.\<close>

definition changed_cell :: "nodeid option \<Rightarrow> nodeid option \<Rightarrow> bool \<times> bool \<Rightarrow> bool \<times> bool" where
  "changed_cell oldId newId acc =
     (case (newId, oldId) of
        (None, Some x) \<Rightarrow> (True, True)
      | (Some y, None) \<Rightarrow> (True, snd acc)
      | (None, None) \<Rightarrow> acc
      | (Some y, Some x) \<Rightarrow> if y \<noteq> x then (True, snd acc) else acc)"

fun changed_cols ::
  "nodeid option list list \<Rightarrow> nodeid option list list \<Rightarrow> nat \<Rightarrow> nat list \<Rightarrow> bool \<times> bool
    \<Rightarrow> (bool \<times> bool) option" where
  "changed_cols old new r [] acc = Some acc"
| "changed_cols old new r (c # cs) acc =
     (case (cell old r c, cell new r c) of
        (Some oldId, Some newId) \<Rightarrow> changed_cols old new r cs (changed_cell oldId newId acc)
      | _ \<Rightarrow> None)"

fun changed_rows ::
  "nodeid option list list \<Rightarrow> nodeid option list list \<Rightarrow> nat list \<Rightarrow> bool \<times> bool
    \<Rightarrow> (bool \<times> bool) option" where
  "changed_rows old new [] acc = Some acc"
| "changed_rows old new (r # rs) acc =
     (case changed_cols old new r [0 ..< length (new ! 0)] acc of
        None \<Rightarrow> None
      | Some acc' \<Rightarrow> changed_rows old new rs acc')"

text \<open>\<^verbatim>\<open>o.changed(t)\<close>: \<open>t\<close> is the new table, the live table of \<open>ov\<close> the old one.\<close>

definition changed :: "overlay \<Rightarrow> table \<Rightarrow> (bool \<times> bool) option" where
  "changed ov t =
     changed_rows (routes (live ov)) (routes t) [0 ..< length (routes t)]
       (leaves_differ (leaves t) (leaves (live ov)), False)"

subsection \<open>The overlay's beater\<close>

definition active :: "overlay \<Rightarrow> nodeid \<Rightarrow> bool" where
  "active ov p =
     (if list_ex (\<lambda>nid. p = nid) (leaves (live ov)) then True
      else list_ex (list_ex (\<lambda>c. case c of None \<Rightarrow> False | Some nid \<Rightarrow> p = nid))
             (routes (live ov)))"

text \<open>\<^verbatim>\<open>sendBeat\<close>: the message built for a peer, with the destination it is wrapped for.\<close>

definition sendBeat :: "overlay \<Rightarrow> nodeid \<Rightarrow> bool \<Rightarrow> nodeid \<times> state" where
  "sendBeat ov p passive =
     (p, \<lparr>Addrs = [], Updated = time ov, Repair = False, Passive = passive\<rparr>)"

text \<open>One tick of \<^verbatim>\<open>beater\<close>: the messages of the go-routines it starts, one per peer.\<close>

definition beater :: "overlay \<Rightarrow> (nodeid \<times> state) list" where
  "beater ov = map (\<lambda>p. sendBeat ov p (\<not> active ov p)) (pool ov)"

subsection \<open>The heart\<close>

text \<open>
  \<^verbatim>\<open>heart/heart.go\<close>. The ticks and the kill threshold are Go \<^verbatim>\<open>int\<close>s: 64-bit
  machine integers that wrap around, compared as signed numbers.

  Modelled from the spec: the type \<^verbatim>\<open>entity\<close> and the methods of \<^verbatim>\<open>entitySlice\<close>
  (\<^verbatim>\<open>Search\<close> and the \<^verbatim>\<open>sort.Interface\<close>) are not among the sources. The
  specification has an entity as an id with its last tick, "sorted by id inside the
  Heart to allow binary-search lookup"; \<^verbatim>\<open>Search\<close> is taken to be the binary
  search \<^verbatim>\<open>sort.Search\<close> for the first entity whose id is not below the one looked
  for, as \<^verbatim>\<open>sortext.SearchBigInts\<close> is for ids.
\<close>

record entity =
  ent_id :: nodeid
  ent_tick :: "64 word"

record heart =
  mems :: "entity list"
  tick :: "64 word"
  kill :: "64 word"

datatype heart_error = DuplicateEntry | NonMonitored

definition New :: "64 word \<Rightarrow> heart" where
  "New k = \<lparr>mems = [], tick = 0, kill = k\<rparr>"

definition entity_Search :: "entity list \<Rightarrow> nodeid \<Rightarrow> nat" where
  "entity_Search ms x = Search (length ms) (\<lambda>i. ent_id (ms ! i) \<ge> x)"

definition Monitor :: "heart \<Rightarrow> nodeid \<Rightarrow> heart_error + heart" where
  "Monitor h x =
     (let idx = entity_Search (mems h) x
      in if idx < length (mems h) \<and> ent_id (mems h ! idx) = x
         then Inl DuplicateEntry
         else Inr (h\<lparr>mems := sort_key ent_id (mems h @ [\<lparr>ent_id = x, ent_tick = tick h\<rparr>])\<rparr>))"

definition Unmonitor :: "heart \<Rightarrow> nodeid \<Rightarrow> heart_error + heart" where
  "Unmonitor h x =
     (let idx = entity_Search (mems h) x
      in if idx < length (mems h) \<and> ent_id (mems h ! idx) = x
         then (let last = length (mems h) - 1;
                   ms = (mems h)[idx := mems h ! last];
                   ms = take last ms
               in Inr (h\<lparr>mems := sort_key ent_id ms\<rparr>))
         else Inl NonMonitored)"

definition Ping :: "heart \<Rightarrow> nodeid \<Rightarrow> heart_error + heart" where
  "Ping h x =
     (let idx = entity_Search (mems h) x
      in if idx < length (mems h) \<and> ent_id (mems h ! idx) = x
         then Inr (h\<lparr>mems := (mems h)[idx := (mems h ! idx)\<lparr>ent_tick := tick h\<rparr>]\<rparr>)
         else Inl NonMonitored)"

text \<open>
  What a beat cycle does, in the order it does it: taking and releasing the lock, and
  the two callbacks.
\<close>

datatype event = Lock | Unlock | Beat | Dead nodeid

text \<open>The loop over \<^verbatim>\<open>h.mems\<close> that appends to \<^verbatim>\<open>dead\<close>.\<close>

fun collect_dead :: "heart \<Rightarrow> entity list \<Rightarrow> nodeid list \<Rightarrow> nodeid list" where
  "collect_dead h [] dead = dead"
| "collect_dead h (m # ms) dead =
     collect_dead h ms (if kill h \<le>s tick h - ent_tick m then dead @ [ent_id m] else dead)"

text \<open>
  The body of the \<^verbatim>\<open>case <-beat.C\<close> branch of \<^verbatim>\<open>beater\<close>: the heart afterwards,
  the dead ids collected and the events in their order.
\<close>

definition beat_cycle :: "heart \<Rightarrow> heart \<times> nodeid list \<times> event list" where
  "beat_cycle h =
     (let h' = h\<lparr>tick := tick h + 1\<rparr>;
          dead = collect_dead h' (mems h') []
      in (h', dead, [Lock] @ [Unlock] @ [Beat] @ map Dead dead))"

text \<open>
  The lock serialises the calls on a heart, so a history of a heart is a sequence of
  calls and beat cycles. A call that returns an error leaves the heart as it was.
\<close>

datatype heart_op = DoMonitor nodeid | DoUnmonitor nodeid | DoPing nodeid | DoBeat

fun keep :: "heart \<Rightarrow> heart_error + heart \<Rightarrow> heart" where
  "keep h (Inl err) = h"
| "keep h (Inr h') = h'"

text \<open>
  \<open>run h ops\<close> lists, for every beat cycle of the history, the tick after the increment
  and the ids reported dead in that cycle.
\<close>

fun run :: "heart \<Rightarrow> heart_op list \<Rightarrow> (64 word \<times> nodeid list) list" where
  "run h [] = []"
| "run h (DoMonitor x # ops) = run (keep h (Monitor h x)) ops"
| "run h (DoUnmonitor x # ops) = run (keep h (Unmonitor h x)) ops"
| "run h (DoPing x # ops) = run (keep h (Ping h x)) ops"
| "run h (DoBeat # ops) =
     (let (h', dead, evs) = beat_cycle h in (tick h', dead) # run h' ops)"

text \<open>The callbacks of a sequence of events, and whether each is made with the lock free.\<close>

fun is_callback :: "event \<Rightarrow> bool" where
  "is_callback Lock = False"
| "is_callback Unlock = False"
| "is_callback Beat = True"
| "is_callback (Dead x) = True"

fun unlocked_calls :: "bool \<Rightarrow> event list \<Rightarrow> bool" where
  "unlocked_calls held [] = True"
| "unlocked_calls held (Lock # es) = unlocked_calls True es"
| "unlocked_calls held (Unlock # es) = unlocked_calls False es"
| "unlocked_calls held (Beat # es) = (\<not> held \<and> unlocked_calls held es)"
| "unlocked_calls held (Dead x # es) = (\<not> held \<and> unlocked_calls held es)"

subsection \<open>A small instance\<close>

text \<open>
  An instance of the parameters, for evaluating the model: ids of four bits on a ring of
  sixteen, ranked by their signed distance from the origin; two digits of two bits each,
  so two rows of four cells; decimal numerals with an optional sign.
\<close>

definition ex_digit :: "char \<Rightarrow> nat option" where
  "ex_digit c = map_of [(CHR ''0'', 0), (CHR ''1'', 1), (CHR ''2'', 2), (CHR ''3'', 3),
     (CHR ''4'', 4), (CHR ''5'', 5), (CHR ''6'', 6), (CHR ''7'', 7), (CHR ''8'', 8),
     (CHR ''9'', 9)] c"

fun ex_decimal :: "nat \<Rightarrow> string \<Rightarrow> nat option" where
  "ex_decimal acc [] = Some acc"
| "ex_decimal acc (c # cs) =
     (case ex_digit c of None \<Rightarrow> None | Some d \<Rightarrow> ex_decimal (10 * acc + d) cs)"

definition ex_SetString :: "string \<Rightarrow> nodeid option" where
  "ex_SetString s =
     (case s of
        [] \<Rightarrow> None
      | c # cs \<Rightarrow>
          if c = CHR ''-'' then (if cs = [] then None else map_option (\<lambda>n. - int n) (ex_decimal 0 cs))
          else if c = CHR ''+'' then (if cs = [] then None else map_option int (ex_decimal 0 cs))
          else map_option int (ex_decimal 0 s))"

definition ex_rank :: "nodeid \<Rightarrow> nodeid \<Rightarrow> int" where
  "ex_rank origin x = (x - origin + 8) mod 16 - 8"

definition ex_prefix :: "nodeid \<Rightarrow> nodeid \<Rightarrow> nat \<times> nat" where
  "ex_prefix a b =
     (if a div 4 \<noteq> b div 4 then (0, nat (b div 4))
      else if a mod 4 \<noteq> b mod 4 then (1, nat (b mod 4))
      else (2, 0))"

definition ex_env :: env where
  "ex_env = \<lparr>OverlayLeaves = 4, rank = ex_rank, prefix = ex_prefix, SetString = ex_SetString\<rparr>"

definition ex_overlay :: overlay where
  "ex_overlay =
     \<lparr>nodeId = 10,
      live = \<lparr>leaves = [10], routes = [[None, None, None, None], [None, None, None, None]]\<rparr>,
      pool = [5, 9], time = 3\<rparr>"

text \<open>The list \<^verbatim>\<open>mergeLeaves\<close> cuts its window from: sorted around the local id,
  without repetitions.\<close>

definition ring :: "env \<Rightarrow> overlay \<Rightarrow> nodeid list \<Rightarrow> nodeid list" where
  "ring e ov xs = Unique (rank e (nodeId ov)) (sort_key (rank e (nodeId ov)) xs)"

definition ex_routed :: table where
  "ex_routed = \<lparr>leaves = [10], routes = [[None, Some 5, None, None], [None, None, None, None]]\<rparr>"

definition ex_blank :: table where
  "ex_blank = \<lparr>leaves = [10], routes = [[None, None, None, None], [None, None, None, None]]\<rparr>"

text \<open>What the first loop of \<^verbatim>\<open>merge\<close> makes of one entry of the message: its id, if the
  key parses and is not the local id.\<close>

definition valid_id :: "env \<Rightarrow> overlay \<Rightarrow> string \<times> string list \<Rightarrow> nodeid option" where
  "valid_id e ov entry =
     (case SetString e (fst entry) of
        Some nid \<Rightarrow> if nodeId ov \<noteq> nid then Some nid else None
      | None \<Rightarrow> None)"

definition ex_state :: state where
  "ex_state = \<lparr>Addrs = [(''7'', [''a'']), (''x'', []), (''10'', []), (''5'', [''b'']), (''1'', [])],
     Updated = 0, Repair = False, Passive = False\<rparr>"

definition ex_merged :: table where
  "ex_merged = \<lparr>leaves = [5, 7, 10, 1],
     routes = [[Some 1, Some 7, None, None], [None, None, None, None]]\<rparr>"

definition ex_revoked :: table where
  "ex_revoked = \<lparr>leaves = [5, 9, 10, 1],
     routes = [[Some 1, Some 5, None, None], [None, None, None, None]]\<rparr>"

section \<open>Properties of \<^verbatim>\<open>mergeLeaves\<close>\<close>

lemma set_Unique_subset: "set (Unique k xs) \<subseteq> set xs"
  by (induction k xs rule: Unique.induct) auto

lemma Unique_keys:
  "sorted (map k xs) \<Longrightarrow> k ` set (Unique k xs) = k ` set xs"
proof (induction k xs rule: Unique.induct)
  case (1 k)
  show ?case by simp
next
  case (2 k x)
  show ?case by simp
next
  case (3 k x y ys)
  from 3(3) have le: "k x \<le> k y" and s1: "sorted (map k (y # ys))"
    and s2: "sorted (map k (x # ys))" by simp_all
  show ?case
  proof (cases "k x < k y")
    case True
    from 3(1) [OF True s1] have "k ` set (Unique k (y # ys)) = k ` set (y # ys)" .
    with True show ?thesis by simp
  next
    case False
    with le have eq: "k x = k y" by simp
    from 3(2) [OF False s2] have "k ` set (Unique k (x # ys)) = k ` set (x # ys)" .
    with False eq show ?thesis by simp
  qed
qed

lemma Unique_strict:
  "sorted (map k xs) \<Longrightarrow> sorted_wrt (\<lambda>x y. k x < k y) (Unique k xs)"
proof (induction k xs rule: Unique.induct)
  case (1 k)
  show ?case by simp
next
  case (2 k x)
  show ?case by simp
next
  case (3 k x y ys)
  from 3(3) have le: "k x \<le> k y" and s1: "sorted (map k (y # ys))"
    and s2: "sorted (map k (x # ys))" by simp_all
  show ?case
  proof (cases "k x < k y")
    case True
    from 3(1) [OF True s1] have ih: "sorted_wrt (\<lambda>x y. k x < k y) (Unique k (y # ys))" .
    have "k x < k z" if "z \<in> set (Unique k (y # ys))" for z
    proof -
      from that have "z \<in> set (y # ys)"
        by (rule subsetD [OF set_Unique_subset])
      moreover from s1 have "\<forall>w \<in> set ys. k y \<le> k w" by simp
      ultimately have "k y \<le> k z" by auto
      with True show ?thesis by simp
    qed
    with ih True show ?thesis by simp
  next
    case False
    from 3(2) [OF False s2] False show ?thesis by simp
  qed
qed

lemma ring_strict: "sorted_wrt (\<lambda>x y. rank e (nodeId ov) x < rank e (nodeId ov) y) (ring e ov xs)"
  unfolding ring_def by (rule Unique_strict) (rule sorted_sort_key)

lemma ring_subset: "set (ring e ov xs) \<subseteq> set xs"
proof -
  have "set (ring e ov xs) \<subseteq> set (sort_key (rank e (nodeId ov)) xs)"
    unfolding ring_def by (rule set_Unique_subset)
  then show ?thesis by simp
qed

lemma ring_keys: "rank e (nodeId ov) ` set (ring e ov xs) = rank e (nodeId ov) ` set xs"
proof -
  have "rank e (nodeId ov) ` set (ring e ov xs)
      = rank e (nodeId ov) ` set (sort_key (rank e (nodeId ov)) xs)"
    unfolding ring_def by (rule Unique_keys) (rule sorted_sort_key)
  then show ?thesis by simp
qed

lemma ring_keys_sorted:
  "sorted (map (rank e (nodeId ov)) (ring e ov xs)) \<and> distinct (map (rank e (nodeId ov)) (ring e ov xs))"
proof -
  have "sorted_wrt (<) (map (rank e (nodeId ov)) (ring e ov xs))"
    by (simp add: sorted_wrt_map ring_strict)
  then show ?thesis by (simp add: strict_sorted_iff)
qed

lemma ring_distinct: "distinct (ring e ov xs)"
  using ring_keys_sorted [of e ov xs] by (simp add: distinct_map)

lemma ring_set:
  assumes "inj_on (rank e (nodeId ov)) (set xs)"
  shows "set (ring e ov xs) = set xs"
proof
  show "set (ring e ov xs) \<subseteq> set xs" by (rule ring_subset)
  show "set xs \<subseteq> set (ring e ov xs)"
  proof
    fix x assume x: "x \<in> set xs"
    then have "rank e (nodeId ov) x \<in> rank e (nodeId ov) ` set (ring e ov xs)"
      by (simp add: ring_keys)
    then obtain y where y: "y \<in> set (ring e ov xs)" and eq: "rank e (nodeId ov) x = rank e (nodeId ov) y"
      by blast
    from y have "y \<in> set xs" using ring_subset by blast
    with assms x eq have "x = y" by (simp add: inj_on_def)
    with y show "x \<in> set (ring e ov xs)" by simp
  qed
qed

lemma ring_mem_self:
  assumes "inj_on (rank e (nodeId ov)) (insert (nodeId ov) (set xs))"
  shows "nodeId ov \<in> set (ring e ov xs) \<longleftrightarrow> nodeId ov \<in> set xs"
proof
  assume "nodeId ov \<in> set (ring e ov xs)"
  then show "nodeId ov \<in> set xs" using ring_subset by blast
next
  assume x: "nodeId ov \<in> set xs"
  then have "rank e (nodeId ov) (nodeId ov) \<in> rank e (nodeId ov) ` set (ring e ov xs)"
    by (simp add: ring_keys)
  then obtain y where y: "y \<in> set (ring e ov xs)"
    and eq: "rank e (nodeId ov) (nodeId ov) = rank e (nodeId ov) y"
    by blast
  from y have "y \<in> set xs" using ring_subset by blast
  with assms eq have "nodeId ov = y" by (simp add: inj_on_def)
  with y show "nodeId ov \<in> set (ring e ov xs)" by simp
qed

lemma ring_cong_set:
  assumes inj: "inj_on (rank e (nodeId ov)) (set xs)" and eq: "set xs = set ys"
  shows "ring e ov xs = ring e ov ys"
proof -
  let ?k = "rank e (nodeId ov)"
  note s = ring_keys_sorted [of e ov xs] ring_keys_sorted [of e ov ys]
  have "set (map ?k (ring e ov xs)) = set (map ?k (ring e ov ys))"
    by (simp add: ring_keys eq)
  with s have m: "map ?k (ring e ov xs) = map ?k (ring e ov ys)"
    by (meson sorted_distinct_set_unique)
  have "set (ring e ov xs) \<union> set (ring e ov ys) \<subseteq> set xs"
    using ring_subset [of e ov xs] ring_subset [of e ov ys] eq by auto
  with inj have "inj_on ?k (set (ring e ov xs) \<union> set (ring e ov ys))"
    by (rule inj_on_subset)
  with m show ?thesis by (simp add: inj_on_map_eq_map)
qed

lemma origin_loop_None:
  "origin_loop self res i = None \<longleftrightarrow> self \<notin> set (drop i res)"
proof (induction self res i rule: origin_loop.induct)
  case (1 self res origin)
  show ?case
  proof (cases "origin < length res")
    case True
    then have d: "set (drop origin res) = insert (res ! origin) (set (drop (Suc origin) res))"
      by (metis Cons_nth_drop_Suc list.simps(15))
    show ?thesis
      using True 1 by (subst origin_loop.simps) (auto simp: d)
  next
    case False
    then show ?thesis by (subst origin_loop.simps) simp
  qed
qed

lemma origin_loop_Some:
  "origin_loop self res i = Some n \<Longrightarrow> i \<le> n \<and> n < length res \<and> res ! n = self"
proof (induction self res i rule: origin_loop.induct)
  case (1 self res origin)
  note unfold = origin_loop.simps [of self res origin]
  show ?case
  proof (cases "origin < length res \<and> self \<noteq> res ! origin")
    case True
    with 1(2) have "origin_loop self res (origin + 1) = Some n"
      by (simp add: unfold)
    with 1(1) True have "origin + 1 \<le> n \<and> n < length res \<and> res ! n = self"
      by blast
    then show ?thesis by simp
  next
    case False
    with 1(2) show ?thesis
      by (simp add: unfold split: if_splits)
  qed
qed

text \<open>\<^verbatim>\<open>mergeLeaves\<close> in terms of the ring and the origin.\<close>

lemma mergeLeaves_ring:
  "mergeLeaves e ov a b =
     (case origin_loop (nodeId ov) (ring e ov (a @ b)) 0 of
        None \<Rightarrow> None
      | Some origin \<Rightarrow>
          Some (drop (origin - OverlayLeaves e div 2)
                 (take (origin + OverlayLeaves e div 2) (ring e ov (a @ b)))))"
proof (cases "origin_loop (nodeId ov) (ring e ov (a @ b)) 0")
  case None
  then show ?thesis by (simp add: mergeLeaves_def ring_def)
next
  case (Some origin)
  let ?res = "ring e ov (a @ b)"
  let ?h = "OverlayLeaves e div 2"
  from origin_loop_Some [OF Some] have lt: "origin < length ?res" by simp
  have mn: "nat (max 0 (int origin - int ?h)) = origin - ?h" by simp
  have mx: "nat (min (int (length ?res)) (int origin + int ?h)) = min (length ?res) (origin + ?h)"
    by simp
  have ok: "max 0 (int origin - int ?h) \<le> min (int (length ?res)) (int origin + int ?h)"
    using lt by simp
  have t: "take (min (length ?res) (origin + ?h)) ?res = take (origin + ?h) ?res"
    by (simp add: min_def)
  show ?thesis
    using Some ok unfolding mergeLeaves_def Let_def ring_def [symmetric]
    by (simp only: option.case mn mx t) simp
qed

lemma mergeLeaves_None_iff:
  "mergeLeaves e ov a b = None \<longleftrightarrow> nodeId ov \<notin> set (ring e ov (a @ b))"
proof (cases "origin_loop (nodeId ov) (ring e ov (a @ b)) 0")
  case None
  then show ?thesis
    using origin_loop_None [of "nodeId ov" "ring e ov (a @ b)" 0]
    by (simp add: mergeLeaves_ring)
next
  case (Some origin)
  then show ?thesis
    using origin_loop_None [of "nodeId ov" "ring e ov (a @ b)" 0]
    by (simp add: mergeLeaves_ring)
qed

lemma mergeLeaves_length:
  "mergeLeaves e ov a b = Some res \<Longrightarrow> length res \<le> OverlayLeaves e"
proof -
  assume m: "mergeLeaves e ov a b = Some res"
  then obtain origin where
    res: "res = drop (origin - OverlayLeaves e div 2)
                 (take (origin + OverlayLeaves e div 2) (ring e ov (a @ b)))"
    by (auto simp: mergeLeaves_ring split: option.splits)
  have "length res \<le> (origin + OverlayLeaves e div 2) - (origin - OverlayLeaves e div 2)"
    unfolding res by simp
  also have "\<dots> \<le> 2 * (OverlayLeaves e div 2)" by simp
  also have "\<dots> \<le> OverlayLeaves e" by simp
  finally show ?thesis .
qed

text \<open>
  Claim C8. For all id lists \<open>a\<close> and \<open>b\<close>, \<^verbatim>\<open>mergeLeaves(a, b)\<close> and
  \<^verbatim>\<open>mergeLeaves(b, a)\<close> are equal as sets, and the result is at most
  \<^verbatim>\<open>OverlayLeaves\<close> long. Proved for every ranking that tells the ids of the two lists
  apart (on the ring no two ids have the same position): the two calls return the same
  list, or both panic because the local id is in neither list.
\<close>

theorem mergeLeaves_commute:
  assumes "inj_on (rank e (nodeId ov)) (set a \<union> set b)"
  shows "mergeLeaves e ov a b = mergeLeaves e ov b a \<and>
         (case mergeLeaves e ov a b of None \<Rightarrow> True | Some res \<Rightarrow> length res \<le> OverlayLeaves e)"
proof
  from assms have "inj_on (rank e (nodeId ov)) (set (a @ b))" by simp
  moreover have "set (a @ b) = set (b @ a)" by auto
  ultimately have "ring e ov (a @ b) = ring e ov (b @ a)" by (rule ring_cong_set)
  then show "mergeLeaves e ov a b = mergeLeaves e ov b a"
    by (simp add: mergeLeaves_ring cong: option.case_cong)
  show "case mergeLeaves e ov a b of None \<Rightarrow> True | Some res \<Rightarrow> length res \<le> OverlayLeaves e"
    by (simp add: mergeLeaves_length split: option.split)
qed

theorem mergeLeaves_commute_witness:
  "inj_on (rank ex_env (nodeId ex_overlay)) (set [10, 12, 7] \<union> set [3, 12, 11, 1, 15]) \<and>
   mergeLeaves ex_env ex_overlay [10, 12, 7] [3, 12, 11, 1, 15] = Some [3, 7, 10, 11] \<and>
   mergeLeaves ex_env ex_overlay [3, 12, 11, 1, 15] [10, 12, 7] = Some [3, 7, 10, 11] \<and>
   length [3, 7, 10, 11 :: nodeid] \<le> OverlayLeaves ex_env"
proof -
  have inj: "inj_on (rank ex_env (nodeId ex_overlay)) (set [10, 12, 7] \<union> set [3, 12, 11, 1, 15])"
    by (simp add: ex_env_def ex_overlay_def ex_rank_def inj_on_def)
  have v: "mergeLeaves ex_env ex_overlay [10, 12, 7] [3, 12, 11, 1, 15] = Some [3, 7, 10, 11]"
    by code_simp
  from mergeLeaves_commute [OF inj] v inj show ?thesis by simp
qed

text \<open>
  Claim C10. \<^verbatim>\<open>mergeLeaves(a, b)\<close> makes only accesses within bounds if and only if the
  local id occurs in \<open>a\<close> or in \<open>b\<close>: then the scan for the origin stops at the local
  id, and otherwise it reads past the end of the list.
\<close>

theorem mergeLeaves_in_bounds_iff:
  assumes "inj_on (rank e (nodeId ov)) (insert (nodeId ov) (set (a @ b)))"
  shows "mergeLeaves e ov a b \<noteq> None \<longleftrightarrow> nodeId ov \<in> set (a @ b)"
  using ring_mem_self [OF assms] by (simp add: mergeLeaves_None_iff)

theorem mergeLeaves_in_bounds_iff_witness:
  "inj_on (rank ex_env (nodeId ex_overlay)) (insert (nodeId ex_overlay) (set ([12, 7] @ [3, 10]))) \<and>
   mergeLeaves ex_env ex_overlay [12, 7] [3, 10] \<noteq> None \<and>
   nodeId ex_overlay \<in> set ([12, 7] @ [3, 10]) \<and>
   inj_on (rank ex_env (nodeId ex_overlay)) (insert (nodeId ex_overlay) (set ([12, 7] @ [3]))) \<and>
   mergeLeaves ex_env ex_overlay [12, 7] [3] = None \<and>
   nodeId ex_overlay \<notin> set ([12, 7] @ [3])"
proof -
  have inj1: "inj_on (rank ex_env (nodeId ex_overlay)) (insert (nodeId ex_overlay) (set ([12, 7] @ [3, 10])))"
    by (simp add: ex_env_def ex_overlay_def ex_rank_def inj_on_def)
  have inj2: "inj_on (rank ex_env (nodeId ex_overlay)) (insert (nodeId ex_overlay) (set ([12, 7] @ [3])))"
    by (simp add: ex_env_def ex_overlay_def ex_rank_def inj_on_def)
  have m1: "nodeId ex_overlay \<in> set ([12, 7] @ [3, 10])"
    and m2: "nodeId ex_overlay \<notin> set ([12, 7] @ [3])"
    by (simp_all add: ex_overlay_def)
  from mergeLeaves_in_bounds_iff [OF inj1] mergeLeaves_in_bounds_iff [OF inj2] inj1 inj2 m1 m2
  show ?thesis by simp
qed

section \<open>Properties of \<^verbatim>\<open>changed\<close>\<close>

lemma changed_cell_snd:
  "snd (changed_cell oldId newId acc) = (snd acc \<or> (newId = None \<and> oldId \<noteq> None))"
  by (cases oldId; cases newId) (simp_all add: changed_cell_def)

lemma changed_cols_result:
  assumes "r < length old" and "r < length new"
    and "\<forall>c \<in> set cs. c < length (old ! r) \<and> c < length (new ! r)"
  shows "\<exists>ch. changed_cols old new r cs acc =
           Some (ch, snd acc \<or> (\<exists>c \<in> set cs. new ! r ! c = None \<and> old ! r ! c \<noteq> None))"
  using assms(3)
proof (induction cs arbitrary: acc)
  case Nil
  show ?case by (cases acc) simp
next
  case (Cons c cs)
  from Cons.prems assms(1,2) have
    co: "cell old r c = Some (old ! r ! c)" and cn: "cell new r c = Some (new ! r ! c)"
    by (simp_all add: cell_def)
  from Cons.prems have rest: "\<forall>c \<in> set cs. c < length (old ! r) \<and> c < length (new ! r)"
    by simp
  from Cons.IH [OF rest, of "changed_cell (old ! r ! c) (new ! r ! c) acc"]
  obtain ch where "changed_cols old new r cs (changed_cell (old ! r ! c) (new ! r ! c) acc) =
      Some (ch, snd (changed_cell (old ! r ! c) (new ! r ! c) acc) \<or>
                (\<exists>c \<in> set cs. new ! r ! c = None \<and> old ! r ! c \<noteq> None))"
    by blast
  then have "changed_cols old new r (c # cs) acc =
      Some (ch, snd acc \<or> (\<exists>c \<in> set (c # cs). new ! r ! c = None \<and> old ! r ! c \<noteq> None))"
    by (simp add: co cn changed_cell_snd disj_assoc)
  then show ?case by blast
qed

lemma changed_rows_result:
  assumes "\<forall>r \<in> set rs. r < length old \<and> r < length new \<and> length (old ! r) = n \<and> length (new ! r) = n"
    and "rs \<noteq> [] \<longrightarrow> length (new ! 0) = n"
  shows "\<exists>ch. changed_rows old new rs acc =
           Some (ch, snd acc \<or> (\<exists>r \<in> set rs. \<exists>c < n. new ! r ! c = None \<and> old ! r ! c \<noteq> None))"
  using assms
proof (induction rs arbitrary: acc)
  case Nil
  show ?case by (cases acc) simp
next
  case (Cons r rs)
  from Cons.prems have r: "r < length old" "r < length new" "length (old ! r) = n"
    "length (new ! r) = n" and n0: "length (new ! 0) = n"
    by simp_all
  have "\<forall>c \<in> set [0 ..< n]. c < length (old ! r) \<and> c < length (new ! r)"
    using r by simp
  from changed_cols_result [OF r(1,2) this, of acc]
  obtain ch1 where c0: "changed_cols old new r [0 ..< n] acc =
      Some (ch1, snd acc \<or> (\<exists>c \<in> set [0 ..< n]. new ! r ! c = None \<and> old ! r ! c \<noteq> None))"
    by blast
  have "(\<exists>c \<in> set [0 ..< n]. new ! r ! c = None \<and> old ! r ! c \<noteq> None) =
        (\<exists>c < n. new ! r ! c = None \<and> old ! r ! c \<noteq> None)"
    by (simp add: Bex_def)
  with c0 have c1: "changed_cols old new r [0 ..< n] acc =
      Some (ch1, snd acc \<or> (\<exists>c < n. new ! r ! c = None \<and> old ! r ! c \<noteq> None))"
    by simp
  let ?acc = "(ch1, snd acc \<or> (\<exists>c < n. new ! r ! c = None \<and> old ! r ! c \<noteq> None))"
  have rest: "\<forall>r \<in> set rs. r < length old \<and> r < length new \<and> length (old ! r) = n \<and> length (new ! r) = n"
    using Cons.prems by simp
  have rest0: "rs \<noteq> [] \<longrightarrow> length (new ! 0) = n" using n0 by simp
  from Cons.IH [OF rest rest0, of ?acc]
  obtain ch where "changed_rows old new rs ?acc =
      Some (ch, snd ?acc \<or> (\<exists>r \<in> set rs. \<exists>c < n. new ! r ! c = None \<and> old ! r ! c \<noteq> None))"
    by blast
  then have "changed_rows old new (r # rs) acc =
      Some (ch, snd acc \<or> (\<exists>r \<in> set (r # rs). \<exists>c < n. new ! r ! c = None \<and> old ! r ! c \<noteq> None))"
    by (simp add: n0 c1 disj_assoc)
  then show ?case by blast
qed

text \<open>
  Claim C5. For an old (live) and a new table, \<^verbatim>\<open>changed\<close> returns
  \<^verbatim>\<open>rep = true\<close> if and only if some routing cell is empty in the new table and not
  empty in the old one. Routing tables are rectangular and of one shape (the new table
  starts as a copy of the live one): \<open>n\<close> cells in every row.
\<close>

theorem changed_repair_iff:
  assumes "length (routes t) = length (routes (live ov))"
    and "\<forall>row \<in> set (routes t). length row = n"
    and "\<forall>row \<in> set (routes (live ov)). length row = n"
  shows "\<exists>ch rep. changed ov t = Some (ch, rep) \<and>
           (rep \<longleftrightarrow> (\<exists>r < length (routes t). \<exists>c < n.
                      routes t ! r ! c = None \<and> routes (live ov) ! r ! c \<noteq> None))"
proof -
  let ?new = "routes t" and ?old = "routes (live ov)"
  have rows: "\<forall>r \<in> set [0 ..< length ?new].
      r < length ?old \<and> r < length ?new \<and> length (?old ! r) = n \<and> length (?new ! r) = n"
    using assms by simp
  have first: "[0 ..< length ?new] \<noteq> [] \<longrightarrow> length (?new ! 0) = n"
    using assms(2) by simp
  from changed_rows_result [OF rows first,
      of "(leaves_differ (leaves t) (leaves (live ov)), False)"]
  have "\<exists>ch. changed ov t =
      Some (ch, \<exists>r \<in> set [0 ..< length ?new]. \<exists>c < n. ?new ! r ! c = None \<and> ?old ! r ! c \<noteq> None)"
    by (simp add: changed_def)
  then obtain ch where c: "changed ov t =
      Some (ch, \<exists>r \<in> set [0 ..< length ?new]. \<exists>c < n. ?new ! r ! c = None \<and> ?old ! r ! c \<noteq> None)"
    by blast
  have "(\<exists>r \<in> set [0 ..< length ?new]. \<exists>c < n. ?new ! r ! c = None \<and> ?old ! r ! c \<noteq> None) =
        (\<exists>r < length ?new. \<exists>c < n. ?new ! r ! c = None \<and> ?old ! r ! c \<noteq> None)"
    by (simp add: Bex_def)
  with c have "changed ov t =
      Some (ch, \<exists>r < length ?new. \<exists>c < n. ?new ! r ! c = None \<and> ?old ! r ! c \<noteq> None)"
    by simp
  then show ?thesis by blast
qed

theorem changed_repair_iff_witness:
  "\<exists>ch. changed (ex_overlay\<lparr>live := ex_routed\<rparr>) ex_blank = Some (ch, True)"
proof -
  let ?ov = "ex_overlay\<lparr>live := ex_routed\<rparr>"
  have a1: "length (routes ex_blank) = length (routes (live ?ov))"
    by (simp add: ex_blank_def ex_routed_def)
  have a2: "\<forall>row \<in> set (routes ex_blank). length row = 4"
    by (simp add: ex_blank_def)
  have a3: "\<forall>row \<in> set (routes (live ?ov)). length row = 4"
    by (simp add: ex_routed_def)
  have "(1::nat) < 4 \<and> routes ex_blank ! 0 ! 1 = None \<and> routes (live ?ov) ! 0 ! 1 \<noteq> None"
    by (simp add: ex_blank_def ex_routed_def)
  then have "\<exists>c < 4. routes ex_blank ! 0 ! c = None \<and> routes (live ?ov) ! 0 ! c \<noteq> None"
    by (rule exI)
  moreover have "0 < length (routes ex_blank)"
    by (simp add: ex_blank_def)
  ultimately have "0 < length (routes ex_blank) \<and>
      (\<exists>c < 4. routes ex_blank ! 0 ! c = None \<and> routes (live ?ov) ! 0 ! c \<noteq> None)"
    by (rule conjI [rotated])
  then have lost: "\<exists>r < length (routes ex_blank). \<exists>c < 4.
      routes ex_blank ! r ! c = None \<and> routes (live ?ov) ! r ! c \<noteq> None"
    by (rule exI)
  from changed_repair_iff [OF a1 a2 a3] show ?thesis
  proof (elim exE conjE)
    fix ch rep
    assume c: "changed ?ov ex_blank = Some (ch, rep)"
      and r: "rep = (\<exists>r < length (routes ex_blank). \<exists>c < 4.
        routes ex_blank ! r ! c = None \<and> routes (live ?ov) ! r ! c \<noteq> None)"
    from r lost have "rep" by (rule iffD2)
    with c have "changed ?ov ex_blank = Some (ch, True)" by (simp only: eqTrueI)
    then show ?thesis by (rule exI)
  qed
qed

section \<open>Properties of the overlay's beater\<close>

lemma active_iff:
  "active ov p \<longleftrightarrow>
     p \<in> set (leaves (live ov)) \<or> (\<exists>row \<in> set (routes (live ov)). Some p \<in> set row)"
proof -
  have inner: "list_ex (\<lambda>c. case c of None \<Rightarrow> False | Some nid \<Rightarrow> p = nid) row \<longleftrightarrow> Some p \<in> set row"
    for row :: "nodeid option list"
    by (induction row) (auto split: option.splits)
  have outer: "list_ex (list_ex (\<lambda>c. case c of None \<Rightarrow> False | Some nid \<Rightarrow> p = nid)) rows \<longleftrightarrow>
      (\<exists>row \<in> set rows. Some p \<in> set row)" for rows :: "nodeid option list list"
    by (induction rows) (simp_all add: inner)
  have leaf: "list_ex (\<lambda>nid. p = nid) ls \<longleftrightarrow> p \<in> set ls" for ls :: "nodeid list"
    by (induction ls) auto
  show ?thesis
    unfolding active_def by (simp only: outer leaf) simp
qed

text \<open>
  Claim C9. At a tick of the beater every peer of the pool is sent a heartbeat whose
  \<^verbatim>\<open>Passive\<close> flag is true if and only if the peer's id is in neither the leaves nor
  the routes of the live table; in particular a peer in the leaves is sent
  \<^verbatim>\<open>Passive = false\<close>.
\<close>

theorem beater_passive_iff:
  assumes "p \<in> set (pool ov)"
  shows "(\<forall>s. (p, s) \<in> set (beater ov) \<longleftrightarrow>
            s = \<lparr>Addrs = [], Updated = time ov, Repair = False,
                 Passive = (p \<notin> set (leaves (live ov)) \<and>
                            (\<forall>row \<in> set (routes (live ov)). Some p \<notin> set row))\<rparr>) \<and>
         (p \<in> set (leaves (live ov)) \<longrightarrow> (\<forall>s. (p, s) \<in> set (beater ov) \<longrightarrow> \<not> Passive s))"
  using assms by (auto simp: beater_def sendBeat_def active_iff)

theorem beater_passive_iff_witness:
  "beater (ex_overlay\<lparr>live := \<lparr>leaves = [9, 10], routes = [[None, None, None, None], [None, None, None, None]]\<rparr>\<rparr>) =
     [(5, \<lparr>Addrs = [], Updated = 3, Repair = False, Passive = True\<rparr>),
      (9, \<lparr>Addrs = [], Updated = 3, Repair = False, Passive = False\<rparr>)]"
proof -
  let ?ov = "ex_overlay\<lparr>live := \<lparr>leaves = [9, 10], routes = [[None, None, None, None], [None, None, None, None]]\<rparr>\<rparr>"
  have p5: "5 \<in> set (pool ?ov)" and p9: "9 \<in> set (pool ?ov)" by (simp_all add: ex_overlay_def)
  have len: "map fst (beater ?ov) = [5, 9]"
    by (simp add: beater_def sendBeat_def ex_overlay_def)
  from beater_passive_iff [OF p5] have s5:
    "(5, \<lparr>Addrs = [], Updated = 3, Repair = False, Passive = True\<rparr>) \<in> set (beater ?ov)"
    by (simp add: ex_overlay_def)
  from beater_passive_iff [OF p9] have s9:
    "(9, \<lparr>Addrs = [], Updated = 3, Repair = False, Passive = False\<rparr>) \<in> set (beater ?ov)"
    by (simp add: ex_overlay_def)
  obtain a b where ab: "beater ?ov = [(5, a), (9, b)]"
    using len by (auto simp: map_eq_Cons_conv)
  with s5 s9 show ?thesis by auto
qed

section \<open>Properties of the heart\<close>

lemma collect_dead_eq:
  "collect_dead h ms dead =
     dead @ map ent_id (filter (\<lambda>m. kill h \<le>s tick h - ent_tick m) ms)"
  by (induction ms arbitrary: dead) simp_all

lemma callbacks_map_Dead: "filter is_callback (map Dead xs) = map Dead xs"
  by (induction xs) simp_all

lemma unlocked_calls_map_Dead: "unlocked_calls False (map Dead xs)"
  by (induction xs) simp_all

text \<open>
  Claim C7. In every beat cycle the callbacks come in this order: \<^verbatim>\<open>Beat()\<close> once,
  then \<^verbatim>\<open>Dead(id)\<close> once for every dead id collected, in the order of collection (the
  order of \<^verbatim>\<open>h.mems\<close>); and every callback is made after the lock was released.
\<close>

theorem beat_cycle_callbacks:
  "(case beat_cycle h of (h', dead, evs) \<Rightarrow>
      filter is_callback evs = Beat # map Dead dead \<and>
      unlocked_calls False evs \<and>
      dead = map ent_id (filter (\<lambda>m. kill h \<le>s tick h + 1 - ent_tick m) (mems h)))"
  by (simp add: beat_cycle_def Let_def collect_dead_eq callbacks_map_Dead
      unlocked_calls_map_Dead del: map_map)

theorem beat_cycle_callbacks_witness:
  "filter is_callback (snd (snd (beat_cycle
      \<lparr>mems = [\<lparr>ent_id = 4, ent_tick = 5\<rparr>, \<lparr>ent_id = 7, ent_tick = 2\<rparr>, \<lparr>ent_id = 9, ent_tick = 1\<rparr>],
       tick = 4, kill = 3\<rparr>))) = [Beat, Dead 7, Dead 9]"
  using beat_cycle_callbacks
    [of "\<lparr>mems = [\<lparr>ent_id = 4, ent_tick = 5\<rparr>, \<lparr>ent_id = 7, ent_tick = 2\<rparr>, \<lparr>ent_id = 9, ent_tick = 1\<rparr>],
       tick = 4, kill = 3\<rparr>"]
  by (simp add: beat_cycle_def word_sle_eq split: prod.splits)

section \<open>Properties of \<^verbatim>\<open>merge\<close>\<close>

lemma extract_ids_fst:
  "fst (extract_ids e ov xs a) = List.map_filter (valid_id e ov) xs"
proof (induction xs arbitrary: a)
  case Nil
  show ?case by (simp add: map_filter_simps)
next
  case (Cons x xs)
  obtain sid addrs where x: "x = (sid, addrs)" by (cases x)
  show ?case
    by (cases "SetString e sid")
      (simp_all add: x map_filter_simps valid_id_def case_prod_beta Cons.IH)
qed

lemma valid_id_Some:
  "valid_id e ov entry = Some nid \<longleftrightarrow> SetString e (fst entry) = Some nid \<and> nid \<noteq> nodeId ov"
  by (cases "SetString e (fst entry)") (auto simp: valid_id_def)

lemma map_filter_mem:
  "y \<in> set (List.map_filter f xs) \<longleftrightarrow> (\<exists>x \<in> set xs. f x = Some y)"
  by (induction xs) (auto simp: map_filter_simps split: option.splits)

lemma extract_ids_mem:
  "nid \<in> set (fst (extract_ids e ov xs a)) \<longleftrightarrow>
     (\<exists>sid addrs. (sid, addrs) \<in> set xs \<and> SetString e sid = Some nid \<and> nid \<noteq> nodeId ov)"
proof -
  have "nid \<in> set (List.map_filter (valid_id e ov) xs) \<longleftrightarrow>
      (\<exists>entry \<in> set xs. valid_id e ov entry = Some nid)"
    by (rule map_filter_mem)
  also have "\<dots> \<longleftrightarrow>
      (\<exists>sid addrs. (sid, addrs) \<in> set xs \<and> SetString e sid = Some nid \<and> nid \<noteq> nodeId ov)"
    by (simp add: valid_id_Some) force
  finally show ?thesis by (simp add: extract_ids_fst)
qed

lemma cell_update:
  "cell (rs[row := (rs ! row)[col := v]]) r c =
     (if r = row \<and> c = col \<and> row < length rs \<and> col < length (rs ! row) then Some v
      else cell rs r c)"
proof (cases "row < length rs")
  case False
  then show ?thesis by (simp add: cell_def list_update_beyond)
next
  case True
  show ?thesis
  proof (cases "r = row")
    case False
    then show ?thesis by (simp add: cell_def)
  next
    case r: True
    show ?thesis
    proof (cases "c = col")
      case True
      with r \<open>row < length rs\<close> show ?thesis by (simp add: cell_def)
    next
      case False
      with r \<open>row < length rs\<close> show ?thesis by (simp add: cell_def)
    qed
  qed
qed

lemma merge_routes_append:
  "merge_routes e ov rs (pre @ post) =
     (case merge_routes e ov rs pre of
        None \<Rightarrow> None
      | Some rs1 \<Rightarrow> merge_routes e ov rs1 post)"
proof (induction pre arbitrary: rs)
  case Nil
  show ?case by simp
next
  case (Cons nid pre)
  obtain row col where p: "prefix e (nodeId ov) nid = (row, col)"
    by (cases "prefix e (nodeId ov) nid")
  show ?case
    by (simp add: p Cons split: option.splits)
qed

lemma merge_routes_step:
  assumes "merge_routes e ov rs (nid # ids) = Some rs'"
    and "prefix e (nodeId ov) nid = (r, c)"
  shows "\<exists>old. cell rs r c = Some old \<and>
           merge_routes e ov
             (case old of None \<Rightarrow> rs[r := (rs ! r)[c := Some nid]] | Some x \<Rightarrow> rs) ids = Some rs'"
  using assms by (auto simp: cell_def split: if_splits option.splits)

lemma merge_routes_keeps:
  "merge_routes e ov rs ids = Some rs' \<Longrightarrow> cell rs r c = Some (Some x) \<Longrightarrow>
     cell rs' r c = Some (Some x)"
proof (induction ids arbitrary: rs)
  case Nil
  then show ?case by simp
next
  case (Cons nid ids)
  obtain row col where p: "prefix e (nodeId ov) nid = (row, col)"
    by (cases "prefix e (nodeId ov) nid")
  from merge_routes_step [OF Cons.prems(1) p] obtain old where
    old: "cell rs row col = Some old" and
    rest: "merge_routes e ov
       (case old of None \<Rightarrow> rs[row := (rs ! row)[col := Some nid]] | Some x \<Rightarrow> rs) ids = Some rs'"
    by blast
  show ?case
  proof (cases old)
    case None
    with old Cons.prems(2) have "\<not> (r = row \<and> c = col)" by auto
    then have "cell (rs[row := (rs ! row)[col := Some nid]]) r c = Some (Some x)"
      using Cons.prems(2) by (auto simp: cell_update)
    with rest None show ?thesis using Cons.IH by simp
  next
    case (Some y)
    with rest Cons.prems(2) show ?thesis using Cons.IH by simp
  qed
qed

text \<open>
  Claim C4. In a merge of a received state, for each id of the state that parses and is
  not the local id, with \<open>(r, c)\<close> its prefix: if the cell \<^verbatim>\<open>routes[r][c]\<close> is empty
  the id is installed there, and if the cell holds an id already, that id is kept and
  the new one is discarded. The cell is read when the id's turn comes in the loop, so
  after the ids that come before it in the iteration; what is then in the cell, the
  new id or the incumbent, is in the cell of the merged table.
\<close>

theorem merge_installs_or_keeps:
  assumes "merge e ov t a s = Some (t', a')"
    and "(sid, addrs) \<in> set (Addrs s)"
    and "SetString e sid = Some nid"
    and "nid \<noteq> nodeId ov"
    and "prefix e (nodeId ov) nid = (r, c)"
  shows "nid \<in> set (fst (extract_ids e ov (Addrs s) a)) \<and>
         (\<forall>pre post. fst (extract_ids e ov (Addrs s) a) = pre @ nid # post \<longrightarrow>
            (\<exists>rs. merge_routes e ov (routes t) pre = Some rs \<and>
               (case cell rs r c of
                  None \<Rightarrow> False
                | Some None \<Rightarrow> cell (routes t') r c = Some (Some nid)
                | Some (Some old) \<Rightarrow> cell (routes t') r c = Some (Some old))))"
proof
  show "nid \<in> set (fst (extract_ids e ov (Addrs s) a))"
    using assms(2-4) by (auto simp: extract_ids_mem)
  show "\<forall>pre post. fst (extract_ids e ov (Addrs s) a) = pre @ nid # post \<longrightarrow>
            (\<exists>rs. merge_routes e ov (routes t) pre = Some rs \<and>
               (case cell rs r c of
                  None \<Rightarrow> False
                | Some None \<Rightarrow> cell (routes t') r c = Some (Some nid)
                | Some (Some old) \<Rightarrow> cell (routes t') r c = Some (Some old)))"
  proof (intro allI impI)
    fix pre post
    assume ids: "fst (extract_ids e ov (Addrs s) a) = pre @ nid # post"
    from assms(1) have all: "merge_routes e ov (routes t) (pre @ nid # post) = Some (routes t')"
      by (auto simp: merge_def ids [symmetric] split: prod.splits option.splits)
    then obtain rs where pre: "merge_routes e ov (routes t) pre = Some rs"
      and tail: "merge_routes e ov rs (nid # post) = Some (routes t')"
      by (auto simp: merge_routes_append split: option.splits)
    from merge_routes_step [OF tail assms(5)] obtain old where
      old: "cell rs r c = Some old" and
      rest: "merge_routes e ov
         (case old of None \<Rightarrow> rs[r := (rs ! r)[c := Some nid]] | Some x \<Rightarrow> rs) post
           = Some (routes t')"
      by blast
    have "case cell rs r c of
            None \<Rightarrow> False
          | Some None \<Rightarrow> cell (routes t') r c = Some (Some nid)
          | Some (Some old) \<Rightarrow> cell (routes t') r c = Some (Some old)"
    proof (cases old)
      case None
      from old have "r < length rs \<and> c < length (rs ! r)"
        by (simp add: cell_def split: if_splits)
      then have "cell (rs[r := (rs ! r)[c := Some nid]]) r c = Some (Some nid)"
        by (simp add: cell_update)
      with rest None have "cell (routes t') r c = Some (Some nid)"
        using merge_routes_keeps by simp
      with old None show ?thesis by simp
    next
      case (Some y)
      with rest old have "cell (routes t') r c = Some (Some y)"
        using merge_routes_keeps by simp
      with old Some show ?thesis by simp
    qed
    with pre show "\<exists>rs. merge_routes e ov (routes t) pre = Some rs \<and>
               (case cell rs r c of
                  None \<Rightarrow> False
                | Some None \<Rightarrow> cell (routes t') r c = Some (Some nid)
                | Some (Some old) \<Rightarrow> cell (routes t') r c = Some (Some old))"
      by blast
  qed
qed

theorem merge_installs_or_keeps_witness:
  "map_option fst (merge ex_env ex_overlay (live ex_overlay) Map.empty ex_state) = Some ex_merged \<and>
   fst (extract_ids ex_env ex_overlay (Addrs ex_state) Map.empty) = [7] @ 5 # [1] \<and>
   cell (routes ex_merged) 0 1 = Some (Some 7)"
proof -
  have m: "map_option fst (merge ex_env ex_overlay (live ex_overlay) Map.empty ex_state) = Some ex_merged"
    by code_simp
  then obtain a' where m': "merge ex_env ex_overlay (live ex_overlay) Map.empty ex_state = Some (ex_merged, a')"
    by auto
  have ids: "fst (extract_ids ex_env ex_overlay (Addrs ex_state) Map.empty) = [7] @ 5 # [1]"
    by code_simp
  have h2: "(''5'', [''b'']) \<in> set (Addrs ex_state)" by (simp add: ex_state_def)
  have h3: "SetString ex_env ''5'' = Some 5" by code_simp
  have h4: "(5::nodeid) \<noteq> nodeId ex_overlay" by (simp add: ex_overlay_def)
  have h5: "prefix ex_env (nodeId ex_overlay) 5 = (0, 1)" by code_simp
  have pre: "merge_routes ex_env ex_overlay (routes (live ex_overlay)) [7] =
      Some [[None, Some 7, None, None], [None, None, None, None]]"
    by code_simp
  have c: "cell [[None, Some 7, None, None], [None, None, None, None]] 0 1 = Some (Some 7)"
    by code_simp
  from merge_installs_or_keeps [OF m' h2 h3 h4 h5] ids
  have "\<exists>rs. merge_routes ex_env ex_overlay (routes (live ex_overlay)) [7] = Some rs \<and>
      (case cell rs 0 1 of
         None \<Rightarrow> False
       | Some None \<Rightarrow> cell (routes ex_merged) 0 1 = Some (Some 5)
       | Some (Some old) \<Rightarrow> cell (routes ex_merged) 0 1 = Some (Some old))"
    by blast
  with pre c have "cell (routes ex_merged) 0 1 = Some (Some 7)" by simp
  with m ids show ?thesis by simp
qed

section \<open>Binary search\<close>

lemma search_loop_bounds:
  "i \<le> j \<Longrightarrow>
     i \<le> search_loop f i j \<and> search_loop f i j \<le> j \<and>
     (search_loop f i j < j \<longrightarrow> f (search_loop f i j)) \<and>
     (i < search_loop f i j \<longrightarrow> \<not> f (search_loop f i j - 1))"
proof (induction f i j rule: search_loop.induct)
  case (1 f i j)
  note unfold = search_loop.simps [of f i j]
  let ?h = "(i + j) div 2"
  show ?case
  proof (cases "i < j")
    case False
    then have "search_loop f i j = i" by (simp add: unfold)
    with "1.prems" False show ?thesis by simp
  next
    case True
    then have h: "i \<le> ?h" "?h < j" by auto
    show ?thesis
    proof (cases "f ?h")
      case False
      have r: "search_loop f i j = search_loop f (?h + 1) j"
        using True False by (simp add: unfold Let_def)
      from h have "?h + 1 \<le> j" by simp
      from "1.IH"(1) [OF True refl False this]
      have ih: "?h + 1 \<le> search_loop f (?h + 1) j" "search_loop f (?h + 1) j \<le> j"
        "search_loop f (?h + 1) j < j \<longrightarrow> f (search_loop f (?h + 1) j)"
        "?h + 1 < search_loop f (?h + 1) j \<longrightarrow> \<not> f (search_loop f (?h + 1) j - 1)"
        by simp_all
      have "\<not> f (search_loop f (?h + 1) j - 1)"
      proof (cases "?h + 1 < search_loop f (?h + 1) j")
        case True
        with ih(4) show ?thesis by simp
      next
        case False
        with ih(1) have "search_loop f (?h + 1) j = ?h + 1" by simp
        with \<open>\<not> f ?h\<close> show ?thesis by simp
      qed
      with ih h show ?thesis unfolding r by auto
    next
      case fh: True
      have r: "search_loop f i j = search_loop f i ?h"
        using True fh by (simp add: unfold Let_def)
      from "1.IH"(2) [OF True refl _ h(1)] fh
      have ih: "i \<le> search_loop f i ?h" "search_loop f i ?h \<le> ?h"
        "search_loop f i ?h < ?h \<longrightarrow> f (search_loop f i ?h)"
        "i < search_loop f i ?h \<longrightarrow> \<not> f (search_loop f i ?h - 1)"
        by simp_all
      have "f (search_loop f i ?h)"
      proof (cases "search_loop f i ?h < ?h")
        case True
        with ih(3) show ?thesis by simp
      next
        case False
        with ih(2) have "search_loop f i ?h = ?h" by simp
        with fh show ?thesis by simp
      qed
      with ih h show ?thesis unfolding r by auto
    qed
  qed
qed

text \<open>On a sorted list the search finds an element exactly when it is there.\<close>

lemma Search_sorted:
  assumes "sorted (map key xs)"
  shows "(let idx = Search (length xs) (\<lambda>i. key (xs ! i) \<ge> (x::int))
          in idx < length xs \<and> key (xs ! idx) = x) \<longleftrightarrow> x \<in> key ` set xs"
proof -
  let ?f = "\<lambda>i. key (xs ! i) \<ge> x"
  let ?r = "Search (length xs) ?f"
  from search_loop_bounds [of 0 "length xs" ?f]
  have b: "?r \<le> length xs" "?r < length xs \<longrightarrow> ?f ?r" "0 < ?r \<longrightarrow> \<not> ?f (?r - 1)"
    by (simp_all add: Search_def)
  have mono: "key (xs ! a) \<le> key (xs ! b)" if "a \<le> b" "b < length xs" for a b
    using assms that by (simp add: sorted_iff_nth_mono)
  show ?thesis
  proof
    assume "let idx = ?r in idx < length xs \<and> key (xs ! idx) = x"
    then have "?r < length xs" and k: "key (xs ! ?r) = x" by (simp_all add: Let_def)
    then have "xs ! ?r \<in> set xs" by simp
    then have "key (xs ! ?r) \<in> key ` set xs" by (rule imageI)
    with k show "x \<in> key ` set xs" by simp
  next
    assume "x \<in> key ` set xs"
    then obtain p where p: "p < length xs" "key (xs ! p) = x"
      by (auto simp: in_set_conv_nth)
    have "?r \<le> p"
    proof (rule ccontr)
      assume "\<not> ?r \<le> p"
      then have "p \<le> ?r - 1" "0 < ?r" by simp_all
      with b have "?r - 1 < length xs" "\<not> ?f (?r - 1)" by simp_all
      with mono [OF \<open>p \<le> ?r - 1\<close>] p show False by simp
    qed
    with p have lt: "?r < length xs" by simp
    with b have "x \<le> key (xs ! ?r)" by simp
    moreover from mono [OF \<open>?r \<le> p\<close> p(1)] p have "key (xs ! ?r) \<le> x" by simp
    ultimately show "let idx = ?r in idx < length xs \<and> key (xs ! idx) = x"
      using lt by (simp add: Let_def)
  qed
qed

lemma is_down_sorted: "sorted downs \<Longrightarrow> is_down downs x \<longleftrightarrow> x \<in> set downs"
  using Search_sorted [of "\<lambda>y. y" downs x]
  by (simp add: is_down_def SearchBigInts_def)

lemma is_down_sort: "is_down (sort downs) x \<longleftrightarrow> x \<in> set downs"
  by (simp add: is_down_sorted)

section \<open>Properties of \<^verbatim>\<open>revoke\<close>\<close>

lemma mset_butlast_last:
  assumes "xs \<noteq> []"
  shows "mset (butlast xs) = mset xs - {#last xs#}"
proof -
  from assms have "mset (butlast xs @ [last xs]) = mset xs" by simp
  then have "add_mset (last xs) (mset (butlast xs)) = mset xs" by simp
  from this [symmetric] show ?thesis by simp
qed

lemma mset_swap_remove:
  assumes "i < length ls"
  shows "mset (butlast (ls[i := last ls])) = mset ls - {#ls ! i#}"
proof -
  from assms have ne: "ls \<noteq> []" by auto
  then have ne': "ls[i := last ls] \<noteq> []" by simp
  have l: "last (ls[i := last ls]) = last ls"
    using ne by (simp add: last_list_update)
  show ?thesis
    using assms by (simp add: mset_butlast_last [OF ne'] l mset_update)
qed

lemma take_swap_remove:
  "i < length ls \<Longrightarrow> take i (butlast (ls[i := last ls])) = take i ls"
proof -
  assume lt: "i < length ls"
  then have "min i (length ls - 1) = i" by simp
  then show ?thesis by (simp add: butlast_conv_take)
qed

lemma mset_drop_swap_remove:
  assumes "i < length ls"
  shows "mset (drop i (butlast (ls[i := last ls]))) = mset (drop (Suc i) ls)"
proof -
  let ?ls2 = "butlast (ls[i := last ls])"
  have "mset (take i ?ls2) + mset (drop i ?ls2) = mset ?ls2"
    by (simp flip: mset_append)
  then have a: "mset (take i ls) + mset (drop i ?ls2) = mset ls - {#ls ! i#}"
    using assms by (simp add: take_swap_remove mset_swap_remove)
  have "mset (take i ls) + mset (drop i ls) = mset ls"
    by (simp flip: mset_append)
  moreover have "mset (drop i ls) = add_mset (ls ! i) (mset (drop (Suc i) ls))"
    using assms by (simp flip: Cons_nth_drop_Suc)
  ultimately have "mset ls - {#ls ! i#} = mset (take i ls) + mset (drop (Suc i) ls)"
    by (metis add_mset_remove_trivial union_mset_add_mset_right)
  with a show ?thesis by simp
qed

lemma clean_leaves_mset:
  "clean_leaves downs ls i intact = (ls', intact') \<Longrightarrow>
     mset ls' = mset (take i ls) + filter_mset (\<lambda>x. \<not> is_down downs x) (mset (drop i ls)) \<and>
     intact' = (intact \<and> (\<forall>x \<in> set (drop i ls). \<not> is_down downs x))"
proof (induction downs ls i intact rule: clean_leaves.induct)
  case (1 downs ls i intact)
  note unfold = clean_leaves.simps [of downs ls i intact]
  show ?case
  proof (cases "i < length ls")
    case False
    with "1.prems" have "ls' = ls" "intact' = intact" by (simp_all add: unfold)
    with False show ?thesis by simp
  next
    case True
    then have d: "drop i ls = ls ! i # drop (Suc i) ls"
      by (simp add: Cons_nth_drop_Suc)
    show ?thesis
    proof (cases "is_down downs (ls ! i)")
      case down: True
      let ?ls2 = "butlast (ls[i := last ls])"
      from "1.prems" True down have "clean_leaves downs ?ls2 i False = (ls', intact')"
        by (simp add: unfold)
      from "1.IH"(1) [OF True down this]
      have ih: "mset ls' = mset (take i ?ls2) +
          filter_mset (\<lambda>x. \<not> is_down downs x) (mset (drop i ?ls2))" and f: "intact' = False"
        by simp_all
      from ih have "mset ls' = mset (take i ls) +
          filter_mset (\<lambda>x. \<not> is_down downs x) (mset (drop (Suc i) ls))"
        using True by (simp add: take_swap_remove mset_drop_swap_remove)
      with f down show ?thesis by (simp add: d)
    next
      case miss: False
      from "1.prems" True miss have "clean_leaves downs ls (i + 1) intact = (ls', intact')"
        by (simp add: unfold)
      from "1.IH"(2) [OF True miss this]
      have ih: "mset ls' = mset (take (i + 1) ls) +
          filter_mset (\<lambda>x. \<not> is_down downs x) (mset (drop (i + 1) ls))"
        and f: "intact' = (intact \<and> (\<forall>x \<in> set (drop (i + 1) ls). \<not> is_down downs x))"
        by simp_all
      from ih True have "mset ls' = add_mset (ls ! i) (mset (take i ls)) +
          filter_mset (\<lambda>x. \<not> is_down downs x) (mset (drop (Suc i) ls))"
        by (simp add: take_Suc_conv_app_nth)
      with f miss show ?thesis by (simp add: d)
    qed
  qed
qed

lemma clean_leaves_unchanged:
  "\<forall>x \<in> set (drop i ls). \<not> is_down downs x \<Longrightarrow> clean_leaves downs ls i intact = (ls, intact)"
proof (induction downs ls i intact rule: clean_leaves.induct)
  case (1 downs ls i intact)
  note unfold = clean_leaves.simps [of downs ls i intact]
  show ?case
  proof (cases "i < length ls")
    case False
    then show ?thesis by (simp add: unfold)
  next
    case True
    then have d: "drop i ls = ls ! i # drop (Suc i) ls"
      by (simp add: Cons_nth_drop_Suc)
    with "1.prems" have miss: "\<not> is_down downs (ls ! i)"
      and rest: "\<forall>x \<in> set (drop (i + 1) ls). \<not> is_down downs x"
      by simp_all
    from "1.IH"(2) [OF True miss rest] True miss show ?thesis
      by (simp add: unfold)
  qed
qed

text \<open>The leaf loop of \<^verbatim>\<open>revoke\<close> as a whole.\<close>

lemma clean_leaves_result:
  assumes "clean_leaves downs ls 0 True = (ls', intact)"
  shows "set ls' = {x \<in> set ls. \<not> is_down downs x}"
    and "distinct ls \<Longrightarrow> distinct ls'"
    and "intact \<longleftrightarrow> (\<forall>x \<in> set ls. \<not> is_down downs x)"
    and "intact \<Longrightarrow> ls' = ls"
proof -
  from clean_leaves_mset [OF assms]
  have m: "mset ls' = mset (filter (\<lambda>x. \<not> is_down downs x) ls)"
    and i: "intact \<longleftrightarrow> (\<forall>x \<in> set ls. \<not> is_down downs x)"
    by simp_all
  from m have "set_mset (mset ls') = set_mset (mset (filter (\<lambda>x. \<not> is_down downs x) ls))"
    by (rule arg_cong)
  then show "set ls' = {x \<in> set ls. \<not> is_down downs x}" by simp
  from i show "intact \<longleftrightarrow> (\<forall>x \<in> set ls. \<not> is_down downs x)" .
  show "distinct ls'" if "distinct ls"
  proof -
    from that have "distinct (filter (\<lambda>x. \<not> is_down downs x) ls)" by simp
    with mset_eq_imp_distinct_iff [OF m] show ?thesis by simp
  qed
  show "ls' = ls" if intact
  proof -
    from that i have "\<forall>x \<in> set (drop 0 ls). \<not> is_down downs x" by simp
    from clean_leaves_unchanged [OF this, of True] assms show ?thesis by simp
  qed
qed

lemma window_mem:
  assumes "lo \<le> k" and "k < hi" and "k < length xs"
  shows "xs ! k \<in> set (drop lo (take hi xs))"
proof -
  have len: "k - lo < length (drop lo (take hi xs))"
    using assms by simp
  have "lo + (k - lo) = k" using assms(1) by simp
  then have "drop lo (take hi xs) ! (k - lo) = xs ! k"
    using assms(2,3) by simp
  with len show ?thesis by (metis nth_mem)
qed

lemma mergeLeaves_Some:
  assumes "mergeLeaves e ov a b = Some res"
  shows "set res \<subseteq> set a \<union> set b" and "distinct res"
    and "2 \<le> OverlayLeaves e \<Longrightarrow> nodeId ov \<in> set res"
proof -
  let ?ring = "ring e ov (a @ b)" and ?h = "OverlayLeaves e div 2"
  from assms obtain origin where
    o: "origin_loop (nodeId ov) ?ring 0 = Some origin" and
    res: "res = drop (origin - ?h) (take (origin + ?h) ?ring)"
    by (auto simp: mergeLeaves_ring split: option.splits)
  have "set res \<subseteq> set ?ring"
    unfolding res by (meson set_drop_subset set_take_subset subset_trans)
  also have "\<dots> \<subseteq> set (a @ b)" by (rule ring_subset)
  finally show "set res \<subseteq> set a \<union> set b" by simp
  show "distinct res" unfolding res by (simp add: ring_distinct)
  show "nodeId ov \<in> set res" if "2 \<le> OverlayLeaves e"
  proof -
    from that have h: "1 \<le> ?h" by simp
    from origin_loop_Some [OF o] have lt: "origin < length ?ring"
      and at: "?ring ! origin = nodeId ov" by simp_all
    have "origin - ?h \<le> origin" by simp
    moreover from h have "origin < origin + ?h" by simp
    ultimately have "?ring ! origin \<in> set res"
      unfolding res using lt by (rule window_mem)
    with at show ?thesis by simp
  qed
qed

section \<open>The routing loop of \<^verbatim>\<open>revoke\<close>\<close>

lemma cell_mem: "(\<exists>row \<in> set rs. v \<in> set row) \<longleftrightarrow> (\<exists>r c. cell rs r c = Some v)"
proof
  assume "\<exists>row \<in> set rs. v \<in> set row"
  then obtain r c where "r < length rs" "c < length (rs ! r)" "rs ! r ! c = v"
    by (metis in_set_conv_nth)
  then have "cell rs r c = Some v" by (simp add: cell_def)
  then show "\<exists>r c. cell rs r c = Some v" by blast
next
  assume "\<exists>r c. cell rs r c = Some v"
  then obtain r c where "r < length rs" "c < length (rs ! r)" "rs ! r ! c = v"
    by (auto simp: cell_def split: if_splits)
  then show "\<exists>row \<in> set rs. v \<in> set row"
    by (metis nth_mem)
qed

lemma cell_clean_routes:
  "cell (clean_routes e ov downs rs) r c = map_option (clean_cell e ov downs r c) (cell rs r c)"
  by (simp add: cell_def clean_routes_def nth_enumerate_eq)

lemma clean_cell_Some:
  assumes "clean_cell e ov downs r c cl = Some x"
  shows "(cl = Some x \<and> \<not> is_down downs x) \<or>
         (x \<in> set (pool ov) \<and> prefix e (nodeId ov) x = (r, c))"
proof (cases cl)
  case None
  with assms show ?thesis by (simp add: clean_cell_def)
next
  case (Some y)
  show ?thesis
  proof (cases "is_down downs y")
    case False
    with assms Some show ?thesis by (simp add: clean_cell_def)
  next
    case True
    with assms Some have "find (\<lambda>p. prefix e (nodeId ov) p = (r, c)) (pool ov) = Some x"
      by (simp add: clean_cell_def fix_cell_def)
    then have "x \<in> set (pool ov) \<and> prefix e (nodeId ov) x = (r, c)"
      by (auto simp: find_Some_iff)
    then show ?thesis by simp
  qed
qed

lemma map_enumerate_same:
  assumes "\<And>i. i < length xs \<Longrightarrow> f (n + i) (xs ! i) = xs ! i"
  shows "map (\<lambda>(i, c). f i c) (enumerate n xs) = xs"
  by (rule nth_equalityI) (simp_all add: nth_enumerate_eq assms)

lemma clean_routes_unchanged:
  assumes "\<forall>row \<in> set rs. \<forall>y. Some y \<in> set row \<longrightarrow> \<not> is_down downs y"
  shows "clean_routes e ov downs rs = rs"
proof -
  have row: "map (\<lambda>(i, c). clean_cell e ov downs r i c) (enumerate 0 (rs ! r)) = rs ! r"
    if "r < length rs" for r
  proof (rule map_enumerate_same)
    fix i assume i: "i < length (rs ! r)"
    show "clean_cell e ov downs r (0 + i) (rs ! r ! i) = rs ! r ! i"
    proof (cases "rs ! r ! i")
      case None
      then show ?thesis by (simp add: clean_cell_def)
    next
      case (Some y)
      with that i have "Some y \<in> set (rs ! r)" "rs ! r \<in> set rs"
        by (metis nth_mem)+
      with assms have "\<not> is_down downs y" by blast
      with Some show ?thesis by (simp add: clean_cell_def)
    qed
  qed
  have "map (\<lambda>(r, row). map (\<lambda>(i, c). clean_cell e ov downs r i c) (enumerate 0 row))
          (enumerate 0 rs) = rs"
    by (rule map_enumerate_same) (simp add: row)
  then show ?thesis by (simp add: clean_routes_def)
qed

lemma table_surjective: "\<lparr>leaves = leaves t, routes = routes t\<rparr> = (t :: table)"
  by (cases t) simp

lemma revoke_unchanged:
  assumes "\<forall>x \<in> set downs. x \<notin> set (leaves t) \<and> (\<forall>row \<in> set (routes t). Some x \<notin> set row)"
  shows "revoke e ov t downs = Some t"
proof -
  have leaf: "\<forall>x \<in> set (drop 0 (leaves t)). \<not> is_down (sort downs) x"
    using assms by (auto simp: is_down_sort)
  have cells: "\<forall>row \<in> set (routes t). \<forall>y. Some y \<in> set row \<longrightarrow> \<not> is_down (sort downs) y"
    using assms by (auto simp: is_down_sort)
  show ?thesis
    by (simp add: revoke_def clean_leaves_unchanged [OF leaf]
        clean_routes_unchanged [OF cells] table_surjective)
qed

lemma clean_routes_not_down:
  assumes "row \<in> set (clean_routes e ov downs rs)" and "Some x \<in> set row"
  shows "(\<not> is_down downs x \<and> (\<exists>row \<in> set rs. Some x \<in> set row)) \<or> x \<in> set (pool ov)"
proof -
  from assms have "\<exists>row \<in> set (clean_routes e ov downs rs). Some x \<in> set row" by blast
  then obtain r c where "cell (clean_routes e ov downs rs) r c = Some (Some x)"
    unfolding cell_mem by blast
  then obtain cl where cl: "cell rs r c = Some cl" and "clean_cell e ov downs r c cl = Some x"
    by (auto simp: cell_clean_routes)
  from clean_cell_Some [OF this(2)] show ?thesis
  proof
    assume a: "cl = Some x \<and> \<not> is_down downs x"
    with cl have "\<exists>r c. cell rs r c = Some (Some x)" by blast
    then have "\<exists>row \<in> set rs. Some x \<in> set row" unfolding cell_mem .
    with a show ?thesis by simp
  next
    assume "x \<in> set (pool ov) \<and> prefix e (nodeId ov) x = (r, c)"
    then show ?thesis by simp
  qed
qed

lemma revoke_removes:
  assumes pool: "\<forall>x \<in> set downs. x \<notin> set (pool ov)"
    and self: "nodeId ov \<notin> set downs" "nodeId ov \<in> set (leaves t)"
    and inj: "inj_on (rank e (nodeId ov)) (set (leaves t) \<union> set (pool ov))"
  shows "\<exists>t'. revoke e ov t downs = Some t' \<and>
           (\<forall>x \<in> set downs. x \<notin> set (leaves t') \<and> (\<forall>row \<in> set (routes t'). Some x \<notin> set row))"
proof -
  obtain ls intact where cl: "clean_leaves (sort downs) (leaves t) 0 True = (ls, intact)"
    by (cases "clean_leaves (sort downs) (leaves t) 0 True")
  from clean_leaves_result(1) [OF cl]
  have ls: "set ls = {x \<in> set (leaves t). x \<notin> set downs}"
    by (simp add: is_down_sort)
  let ?rs = "clean_routes e ov (sort downs) (routes t)"
  have rs: "Some x \<notin> set row" if "x \<in> set downs" "row \<in> set ?rs" for x row
  proof
    assume "Some x \<in> set row"
    from clean_routes_not_down [OF that(2) this] that(1) pool show False
      by (auto simp: is_down_sort)
  qed
  have "\<exists>ls'. (if \<not> intact then mergeLeaves e ov ls (pool ov) else Some ls) = Some ls' \<and>
          set ls' \<subseteq> set ls \<union> set (pool ov)"
  proof (cases intact)
    case True
    then show ?thesis by simp
  next
    case False
    from self ls have mem: "nodeId ov \<in> set (ls @ pool ov)" by simp
    have "insert (nodeId ov) (set (ls @ pool ov)) \<subseteq> set (leaves t) \<union> set (pool ov)"
      using ls self by auto
    with inj have "inj_on (rank e (nodeId ov)) (insert (nodeId ov) (set (ls @ pool ov)))"
      by (rule inj_on_subset)
    from ring_mem_self [OF this] mem have "mergeLeaves e ov ls (pool ov) \<noteq> None"
      by (simp add: mergeLeaves_None_iff)
    then obtain ls' where m: "mergeLeaves e ov ls (pool ov) = Some ls'" by blast
    from mergeLeaves_Some(1) [OF m] m False show ?thesis by simp
  qed
  then obtain ls' where
    rep: "(if \<not> intact then mergeLeaves e ov ls (pool ov) else Some ls) = Some ls'"
    and sub: "set ls' \<subseteq> set ls \<union> set (pool ov)"
    by blast
  have r: "revoke e ov t downs = Some \<lparr>leaves = ls', routes = ?rs\<rparr>"
    using rep by (simp add: revoke_def cl)
  have "x \<notin> set ls'" if "x \<in> set downs" for x
    using that sub ls pool by auto
  with rs r show ?thesis by simp
qed

text \<open>
  Claim C3, as the code has it. The claim says that \<^verbatim>\<open>revoke(t, [id])\<close> removes an id
  that occurs in \<open>t\<close> and is a no-op for an id that does not. The no-op half holds as
  stated. The removal half holds for an id that is not in the connection pool (the
  manager revokes the ids that \<^verbatim>\<open>discover\<close> did not find in the pool) and is not the
  local id, in a table whose leaves hold the local id: \<^verbatim>\<open>revoke\<close> then returns a table
  without the id. An id of the pool is put back by the repair from the pool.
\<close>

theorem revoke_single:
  "(nid \<notin> set (leaves t) \<and> (\<forall>row \<in> set (routes t). Some nid \<notin> set row) \<longrightarrow>
      revoke e ov t [nid] = Some t) \<and>
   (nid \<notin> set (pool ov) \<and> nid \<noteq> nodeId ov \<and> nodeId ov \<in> set (leaves t) \<and>
    inj_on (rank e (nodeId ov)) (set (leaves t) \<union> set (pool ov)) \<longrightarrow>
      (\<exists>t'. revoke e ov t [nid] = Some t' \<and>
         nid \<notin> set (leaves t') \<and> (\<forall>row \<in> set (routes t'). Some nid \<notin> set row)))"
proof (intro conjI impI)
  assume "nid \<notin> set (leaves t) \<and> (\<forall>row \<in> set (routes t). Some nid \<notin> set row)"
  then have "\<forall>x \<in> set [nid]. x \<notin> set (leaves t) \<and> (\<forall>row \<in> set (routes t). Some x \<notin> set row)"
    by simp
  then show "revoke e ov t [nid] = Some t" by (rule revoke_unchanged)
next
  assume a: "nid \<notin> set (pool ov) \<and> nid \<noteq> nodeId ov \<and> nodeId ov \<in> set (leaves t) \<and>
    inj_on (rank e (nodeId ov)) (set (leaves t) \<union> set (pool ov))"
  then have "\<forall>x \<in> set [nid]. x \<notin> set (pool ov)" and "nodeId ov \<notin> set [nid]"
    and "nodeId ov \<in> set (leaves t)"
    and "inj_on (rank e (nodeId ov)) (set (leaves t) \<union> set (pool ov))"
    by simp_all
  from revoke_removes [OF this]
  show "\<exists>t'. revoke e ov t [nid] = Some t' \<and>
         nid \<notin> set (leaves t') \<and> (\<forall>row \<in> set (routes t'). Some nid \<notin> set row)"
    by simp
qed

theorem revoke_single_witness:
  "revoke ex_env ex_overlay ex_merged [3] = Some ex_merged \<and>
   revoke ex_env ex_overlay ex_merged [7] = Some ex_revoked \<and>
   7 \<notin> set (leaves ex_revoked)"
proof -
  have n1: "3 \<notin> set (leaves ex_merged) \<and> (\<forall>row \<in> set (routes ex_merged). Some 3 \<notin> set row)"
    by (simp add: ex_merged_def)
  have n2: "7 \<notin> set (pool ex_overlay) \<and> 7 \<noteq> nodeId ex_overlay \<and>
      nodeId ex_overlay \<in> set (leaves ex_merged) \<and>
      inj_on (rank ex_env (nodeId ex_overlay)) (set (leaves ex_merged) \<union> set (pool ex_overlay))"
    by (simp add: ex_merged_def ex_overlay_def ex_env_def ex_rank_def inj_on_def)
  have v: "revoke ex_env ex_overlay ex_merged [7] = Some ex_revoked"
    by code_simp
  from revoke_single [of 3 ex_merged ex_env ex_overlay] n1
  have a: "revoke ex_env ex_overlay ex_merged [3] = Some ex_merged" by (rule conjunct1 [THEN mp])
  from revoke_single [of 7 ex_merged ex_env ex_overlay] n2
  have "\<exists>t'. revoke ex_env ex_overlay ex_merged [7] = Some t' \<and>
         7 \<notin> set (leaves t') \<and> (\<forall>row \<in> set (routes t'). Some 7 \<notin> set row)"
    by (rule conjunct2 [THEN mp])
  with v have "7 \<notin> set (leaves ex_revoked)" by simp
  with a v show ?thesis by simp
qed

theorem revoke_pooled_id_stays:
  "cell (routes ex_routed) 0 1 = Some (Some 5) \<and>
   revoke ex_env ex_overlay ex_routed [5] = Some ex_routed"
  by code_simp

end
